theory Spec2Isabelle
  imports Complex_Main
begin

section \<open>Tensors of the host library\<close>

text \<open>
  The model follows \<^verbatim>\<open>src/pyro/distributions/lkj.py\<close> for one event (no batch
  dimensions): a one-dimensional tensor is a list, a two-dimensional tensor is the list
  of its rows (a matrix without rows has no columns here). The two transforms are
  written once, over the arithmetic of the tensor's elements, which is a parameter:
  \<open>float32_arith\<close> is the arithmetic of the default tensor type, in which the code
  runs, and \<open>exact_arith\<close> is the arithmetic of the real numbers, in which the
  specification states its identities. The prior's constant and density are read over
  the real numbers.
\<close>

datatype error = ValueError | NameError | RuntimeError

type_synonym vec = "real list"
type_synonym mat = "real list list"

text \<open>
  The operations on tensor elements that the transforms use: the conversion of a Python
  number, the four operations, and the elementary functions.
\<close>

record 'a arith =
  a_const :: "real \<Rightarrow> 'a"
  a_add :: "'a \<Rightarrow> 'a \<Rightarrow> 'a"
  a_sub :: "'a \<Rightarrow> 'a \<Rightarrow> 'a"
  a_mul :: "'a \<Rightarrow> 'a \<Rightarrow> 'a"
  a_div :: "'a \<Rightarrow> 'a \<Rightarrow> 'a"
  a_sqrt :: "'a \<Rightarrow> 'a"
  a_log :: "'a \<Rightarrow> 'a"
  a_tanh :: "'a \<Rightarrow> 'a"
  a_cosh :: "'a \<Rightarrow> 'a"

definition exact_arith :: "real arith" where
  "exact_arith = \<lparr>a_const = (\<lambda>r. r), a_add = (+), a_sub = (-), a_mul = (*), a_div = (/),
                   a_sqrt = sqrt, a_log = ln, a_tanh = tanh, a_cosh = cosh\<rparr>"

subsection \<open>Single-precision numbers\<close>

















subsection \<open>Shapes, slices and assignments\<close>

definition nrows :: "'a list list \<Rightarrow> nat" where
  "nrows y = length y"

definition ncols :: "'a list list \<Rightarrow> nat" where
  "ncols y = (case y of [] \<Rightarrow> 0 | r # _ \<Rightarrow> length r)"

text \<open>\<^verbatim>\<open>torch.zeros\<close> with one and with two dimensions.\<close>

definition zeros :: "'a arith \<Rightarrow> nat \<Rightarrow> 'a list" where
  "zeros ar n = replicate n (a_const ar 0)"

definition zeros2 :: "'a arith \<Rightarrow> nat \<Rightarrow> nat \<Rightarrow> 'a list list" where
  "zeros2 ar r c = replicate r (replicate c (a_const ar 0))"

text \<open>\<^verbatim>\<open>xs[a:b]\<close> for \<open>0 \<le> a \<le> b\<close>.\<close>

definition slice :: "'a list \<Rightarrow> nat \<Rightarrow> nat \<Rightarrow> 'a list" where
  "slice xs a b = take (b - a) (drop a xs)"

text \<open>\<^verbatim>\<open>y[r, c] = v\<close>.\<close>

definition set_entry :: "'a list list \<Rightarrow> nat \<Rightarrow> nat \<Rightarrow> 'a \<Rightarrow> 'a list list" where
  "set_entry y r c v = y[r := (y ! r)[c := v]]"

text \<open>\<^verbatim>\<open>y[r0:, c]\<close>.\<close>

definition col_from :: "'a list list \<Rightarrow> nat \<Rightarrow> nat \<Rightarrow> 'a list" where
  "col_from y r0 c = map (\<lambda>row. row ! c) (drop r0 y)"

text \<open>\<^verbatim>\<open>y[r0:, c] = vs\<close>, where \<open>vs\<close> has one entry for each row from \<open>r0\<close> on.\<close>

definition set_col_from :: "'a list list \<Rightarrow> nat \<Rightarrow> nat \<Rightarrow> 'a list \<Rightarrow> 'a list list" where
  "set_col_from y r0 c vs =
     map (\<lambda>r. if r0 \<le> r then (y ! r)[c := vs ! (r - r0)] else y ! r) [0..<length y]"

text \<open>\<^verbatim>\<open>z[r, c0:c0+len(vs)] = vs\<close>.\<close>

definition set_row_slice :: "'a list list \<Rightarrow> nat \<Rightarrow> nat \<Rightarrow> 'a list \<Rightarrow> 'a list list" where
  "set_row_slice z r c0 vs = z[r := take c0 (z ! r) @ vs @ drop (c0 + length vs) (z ! r)]"

text \<open>
  \<^verbatim>\<open>xs.sum(-1)\<close> and \<^verbatim>\<open>xs.cumsum(-1)\<close>, accumulated from the left, starting at 0,
  in the arithmetic of the elements. The library may add in another order or in a wider
  format; the results below on \<open>float32_arith\<close> sum at most two numbers that are not 0,
  whose exact sum has fewer than 53 significant bits, so that every order and a double
  accumulator give the same float32 result.
\<close>

definition tsum :: "'a arith \<Rightarrow> 'a list \<Rightarrow> 'a" where
  "tsum ar xs = foldl (a_add ar) (a_const ar 0) xs"

fun cumsum_from :: "'a arith \<Rightarrow> 'a \<Rightarrow> 'a list \<Rightarrow> 'a list" where
  "cumsum_from ar acc [] = []"
| "cumsum_from ar acc (v # vs) = a_add ar acc v # cumsum_from ar (a_add ar acc v) vs"

definition cumsum :: "'a arith \<Rightarrow> 'a list \<Rightarrow> 'a list" where
  "cumsum ar xs = cumsum_from ar (a_const ar 0) xs"

text \<open>\<^verbatim>\<open>torch.eye(n)\<close>.\<close>

definition eye :: "'a arith \<Rightarrow> nat \<Rightarrow> 'a list list" where
  "eye ar n = map (\<lambda>r. map (\<lambda>c. if r = c then a_const ar 1 else a_const ar 0) [0..<n]) [0..<n]"

text \<open>
  \<^verbatim>\<open>m.expand_as(y)\<close> for a square \<open>m\<close> with as many columns as \<open>y\<close>: the row
  dimension has to agree, or to be 1 and then the single row is repeated.
\<close>

definition expand_rows :: "'a list list \<Rightarrow> nat \<Rightarrow> error + 'a list list" where
  "expand_rows m n =
     (if nrows m = n then Inr m
      else if nrows m = 1 then Inr (replicate n (hd m))
      else Inl RuntimeError)"

text \<open>
  \<^verbatim>\<open>v.expand_as(w)\<close> for one-dimensional tensors, \<open>n\<close> the length of \<open>w\<close>.
\<close>

definition expand_vec :: "vec \<Rightarrow> nat \<Rightarrow> error + vec" where
  "expand_vec v n =
     (if length v = n then Inr v
      else if length v = 1 then Inr (replicate n (hd v))
      else Inl RuntimeError)"

text \<open>
  \<^verbatim>\<open>torch.linspace(start, end, steps)\<close>: a negative number of steps is refused,
  no step gives the empty tensor, one step gives \<open>[start]\<close>.
\<close>

definition linspace :: "real \<Rightarrow> real \<Rightarrow> int \<Rightarrow> error + vec" where
  "linspace a b n =
     (if n < 0 then Inl RuntimeError
      else if n = 0 then Inr []
      else if n = 1 then Inr [a]
      else Inr (map (\<lambda>i. a + (b - a) / (real_of_int n - 1) * real i) [0..<nat n]))"

text \<open>\<^verbatim>\<open>x.diagonal(offset=0, dim1=-1, dim2=-2)\<close>.\<close>

definition diagonal :: "'a list list \<Rightarrow> 'a list" where
  "diagonal y = map (\<lambda>i. y ! i ! i) [0..<min (nrows y) (ncols y)]"

text \<open>
  \<^verbatim>\<open>torch.lgamma\<close>, the logarithm of the absolute value of the Gamma function,
  with the Gamma function as the limit of Euler's products.
\<close>

definition Gamma_series :: "real \<Rightarrow> nat \<Rightarrow> real" where
  "Gamma_series z n = fact n * real n powr z / (\<Prod>k\<le>n. z + real k)"

definition lgamma :: "real \<Rightarrow> real" where
  "lgamma z = ln \<bar>lim (Gamma_series z)\<bar>"

section \<open>The transform from partial correlations to Cholesky factors\<close>

text \<open>
  \<^verbatim>\<open>D = (1.0 + math.sqrt(1.0 + 8.0 * x.shape[-1]))/2.0\<close>, a computation on Python
  numbers. The square root is that of the reals; on a length \<open>d (d - 1) / 2\<close> it is
  the odd number \<open>2 d - 1\<close>.
\<close>

definition dim_of_len :: "nat \<Rightarrow> real" where
  "dim_of_len n = (1 + sqrt (1 + 8 * real n)) / 2"

text \<open>
  One pass of the loop of \<^verbatim>\<open>_call\<close> for column \<open>j\<close>; the state is
  \<open>(y, i, last_squared_y)\<close>. The square \<^verbatim>\<open>**2\<close> is the product of the number with
  itself.
\<close>

definition call_step ::
  "'a arith \<Rightarrow> 'a list \<Rightarrow> nat \<Rightarrow> 'a list list \<times> nat \<times> 'a list \<Rightarrow> nat
     \<Rightarrow> 'a list list \<times> nat \<times> 'a list" where
  "call_step ar x D s j =
     (case s of (y, i, last_squared_y) \<Rightarrow>
        let distance_to_copy = D - 1 - j;
            last_squared_y' =
              map2 (a_add ar) (tl last_squared_y)
                   (map (\<lambda>v. a_mul ar v v) (col_from y j (j - 1)));
            y1 = set_entry y j j (a_sqrt ar (a_sub ar (a_const ar 1) (hd last_squared_y')));
            y2 = set_col_from y1 (j + 1) j
                   (map2 (a_mul ar) (slice x i (i + distance_to_copy))
                         (map (\<lambda>s. a_sqrt ar (a_sub ar (a_const ar 1) s)) (tl last_squared_y')))
        in (y2, i + distance_to_copy, last_squared_y'))"

text \<open>
  \<^verbatim>\<open>_call\<close>. Where the library's square root gives NaN, \<open>float32_arith\<close> gives NaN
  and \<open>exact_arith\<close> a negative number; the results on \<open>exact_arith\<close> take square
  roots of numbers they show to be positive.
\<close>

definition PartialCorr_call :: "'a arith \<Rightarrow> 'a list \<Rightarrow> error + 'a list list" where
  "PartialCorr_call ar x =
     (let Dr = dim_of_len (length x) in
      if frac Dr \<noteq> 0 then Inl ValueError
      else
        let D = nat \<lfloor>Dr\<rfloor>;
            y0 = set_col_from (set_entry (zeros2 ar D D) 0 0 (a_const ar 1)) 1 0
                   (slice x 0 (D - 1))
        in Inr (fst (foldl (call_step ar x D) (y0, D - 1, zeros ar D) [1..<D])))"

text \<open>
  The right-hand side of the assignment to row \<open>i - 2\<close> of \<^verbatim>\<open>z_tri\<close> in
  \<^verbatim>\<open>_inverse\<close>.
\<close>

definition inverse_row :: "'a arith \<Rightarrow> 'a list list \<Rightarrow> nat \<Rightarrow> 'a list" where
  "inverse_row ar y i =
     map2 (a_div ar) (slice (y ! i) 1 i)
          (map (\<lambda>s. a_sqrt ar (a_sub ar (a_const ar 1) s))
               (cumsum ar (map (\<lambda>v. a_mul ar v v) (slice (y ! i) 0 (i - 1)))))"

text \<open>
  \<^verbatim>\<open>_inverse\<close>. \<^verbatim>\<open>torch.zeros\<close> refuses the negative size \<open>D - 2\<close> when
  \<open>D < 2\<close>.
\<close>

definition PartialCorr_inverse :: "'a arith \<Rightarrow> 'a list list \<Rightarrow> error + 'a list" where
  "PartialCorr_inverse ar y =
     (if nrows y \<noteq> ncols y then Inl ValueError
      else
        let D = ncols y in
        if D < 2 then Inl RuntimeError
        else
          let z_tri = foldl (\<lambda>z i. set_row_slice z (i - 2) 0 (inverse_row ar y i))
                            (zeros2 ar (D - 2) (D - 2)) [2..<D];
              z_stack = [col_from y 1 0] @ map (\<lambda>j. col_from z_tri j j) [0..<D - 2]
          in Inr (concat z_stack))"

text \<open>
  \<^verbatim>\<open>log_abs_det_jacobian(self, x, y)\<close>; the first argument may be \<^verbatim>\<open>None\<close>.
\<close>

definition PartialCorr_log_abs_det_jacobian ::
  "'a arith \<Rightarrow> 'a list option \<Rightarrow> 'a list list \<Rightarrow> error + 'a" where
  "PartialCorr_log_abs_det_jacobian ar x y =
     (case expand_rows
             (map (map (\<lambda>v. if v \<noteq> a_const ar 1 then a_const ar 1 else a_const ar 0))
                  (eye ar (ncols y)))
             (nrows y) of
        Inl e \<Rightarrow> Inl e
      | Inr mask_y \<Rightarrow>
          let x_l = map2 (map2 (a_mul ar)) y mask_y
          in Inr (a_mul ar
                    (tsum ar (map (\<lambda>row. a_log ar (a_sub ar (a_const ar 1)
                                            (tsum ar (map (\<lambda>v. a_mul ar v v) row)))) x_l))
                    (a_const ar (1/2))))"

section \<open>The transform from unconstrained vectors\<close>

definition Unconstrained_call :: "'a arith \<Rightarrow> 'a list \<Rightarrow> error + 'a list list" where
  "Unconstrained_call ar x = (let z = map (a_tanh ar) x in PartialCorr_call ar z)"

definition Unconstrained_inverse :: "'a arith \<Rightarrow> 'a list list \<Rightarrow> error + 'a list" where
  "Unconstrained_inverse ar y =
     (case PartialCorr_inverse ar y of
        Inl e \<Rightarrow> Inl e
      | Inr z \<Rightarrow>
          Inr (map (\<lambda>v. a_div ar (a_log ar (a_div ar (a_add ar (a_const ar 1) v)
                                                      (a_sub ar (a_const ar 1) v)))
                                  (a_const ar 2)) z))"

definition Unconstrained_log_abs_det_jacobian ::
  "'a arith \<Rightarrow> 'a list \<Rightarrow> 'a list list \<Rightarrow> error + 'a" where
  "Unconstrained_log_abs_det_jacobian ar x y =
     (case PartialCorr_log_abs_det_jacobian ar None y of
        Inl e \<Rightarrow> Inl e
      | Inr l \<Rightarrow>
          Inr (a_add ar (a_mul ar (tsum ar (map (\<lambda>v. a_log ar (a_cosh ar v)) x))
                                 (a_const ar (-2))) l))"

section \<open>The LKJ prior over Cholesky factors\<close>

text \<open>
  The fields of a \<^verbatim>\<open>CorrLCholeskyLKJPrior\<close> instance: the concentrations handed to the
  Beta generator, \<^verbatim>\<open>_eta\<close>, \<^verbatim>\<open>_d\<close> and the cache \<^verbatim>\<open>_lkj_constant\<close>
  (\<^verbatim>\<open>None\<close> until the first call of \<^verbatim>\<open>lkj_constant\<close>).
\<close>

record prior =
  p_concentrations :: vec
  p_eta :: real
  p_d :: nat
  p_lkj_constant :: "real option"

text \<open>
  \<^verbatim>\<open>concentrations[..., i] = alpha; i += 1\<close>, the body of the inner loop of
  \<^verbatim>\<open>__init__\<close>. The index stays below \<^verbatim>\<open>vector_size\<close>: the two loops make
  \<open>d * (d - 1) / 2\<close> assignments in all (\<open>init_index_total\<close> below).
\<close>

definition init_fill :: "real \<times> vec \<times> nat \<Rightarrow> nat \<Rightarrow> real \<times> vec \<times> nat" where
  "init_fill s j = (case s of (alpha, concentrations, i) \<Rightarrow>
      (alpha, concentrations[i := alpha], i + 1))"

text \<open>
  The body of the outer loop for block \<open>k\<close>: \<^verbatim>\<open>alpha -= .5\<close>, then the inner
  loop over \<^verbatim>\<open>range(k+1, d)\<close>.
\<close>

definition init_block :: "nat \<Rightarrow> real \<times> vec \<times> nat \<Rightarrow> nat \<Rightarrow> real \<times> vec \<times> nat" where
  "init_block d s k = (case s of (alpha, concentrations, i) \<Rightarrow>
      foldl init_fill (alpha - 0.5, concentrations, i) [k + 1..<d])"

text \<open>
  \<^verbatim>\<open>__init__(self, d, eta)\<close> for a number \<open>eta\<close>. The guard's
  \<^verbatim>\<open>raise ValueException("eta must be > 0")\<close> names a class that the module neither
  defines nor imports, so evaluating it raises \<^verbatim>\<open>NameError\<close>. The buffer from
  \<^verbatim>\<open>eta.new().resize_(vector_size,)\<close> is uninitialised; it is read only after the
  loops have written every entry, and starts as zeros here.
\<close>

definition init :: "nat \<Rightarrow> real \<Rightarrow> error + prior" where
  "init d eta =
     (if eta \<le> 0 then Inl NameError
      else
        let vector_size = (d * (d - 1)) div 2;
            alpha = eta + 0.5 * (real d - 1.0);
            concentrations = replicate vector_size 0
        in case foldl (init_block d) (alpha, concentrations, 0) [0..<d - 1] of
             (alpha', concentrations', i) \<Rightarrow>
               Inr \<lparr>p_concentrations = concentrations', p_eta = eta, p_d = d,
                    p_lkj_constant = None\<rparr>)"

text \<open>
  \<^verbatim>\<open>lkj_constant(self, eta, K)\<close>: the cached value when there is one, else the
  value computed from \<open>eta\<close> and \<open>K\<close>, which is stored in the cache. The result is
  paired with the instance after the call.
\<close>

definition lkj_constant :: "prior \<Rightarrow> real \<Rightarrow> nat \<Rightarrow> error + real \<times> prior" where
  "lkj_constant self eta K =
     (case p_lkj_constant self of
        Some c \<Rightarrow> Inr (c, self)
      | None \<Rightarrow>
          let Km1 = int K - 1;
              constant = lgamma (eta + 0.5 * real_of_int Km1) * real_of_int Km1
          in case linspace 1 (real_of_int Km1) Km1 of
               Inl e \<Rightarrow> Inl e
             | Inr ks \<Rightarrow>
                 let constant' = constant -
                       sum_list (map (\<lambda>k. k * (ln pi * 0.5)
                                         + lgamma (eta + 0.5 * (real_of_int Km1 - k))) ks)
                 in Inr (constant', self\<lparr>p_lkj_constant := Some constant'\<rparr>))"

text \<open>
  \<^verbatim>\<open>log_prob(self, x)\<close>. There is no test of the shape of \<open>x\<close>; the only
  failures are those of \<^verbatim>\<open>linspace\<close> and \<^verbatim>\<open>expand_as\<close>.
\<close>

definition log_prob :: "prior \<Rightarrow> mat \<Rightarrow> error + real \<times> prior" where
  "log_prob self x =
     (let eta = p_eta self in
      case lkj_constant self eta (p_d self) of
        Inl e \<Rightarrow> Inl e
      | Inr (lp, self') \<Rightarrow>
          let Km1 = int (ncols x) - 1;
              log_diagonals = map ln (butlast (diagonal x))
          in case linspace (real_of_int (Km1 - 1)) 0 Km1 of
               Inl e \<Rightarrow> Inl e
             | Inr lin \<Rightarrow>
                 (case expand_vec lin (length log_diagonals) of
                    Inl e \<Rightarrow> Inl e
                  | Inr w \<Rightarrow>
                      let values = map2 (*) log_diagonals w;
                          values' = map2 (+) values
                                      (map (\<lambda>v. v * (eta * 2 + (-2))) log_diagonals)
                      in Inr (sum_list values' + lp, self')))"

section \<open>Notions used in the statements and proofs\<close>

text \<open>
  \<open>interior x\<close>: every entry of \<open>x\<close> lies in the open interval \<open>(-1, 1)\<close>.
  \<open>row_norm\<close>: the Euclidean norm of a row, \<^verbatim>\<open>value.norm(dim=-1)\<close> in the check
  of the constraint. \<open>wf_mat D y\<close>: \<open>y\<close> is a \<open>D\<close> by \<open>D\<close> matrix.
\<close>

definition interior :: "vec \<Rightarrow> bool" where
  "interior x = list_all (\<lambda>v. -1 < v \<and> v < 1) x"


definition wf_mat :: "nat \<Rightarrow> 'a list list \<Rightarrow> bool" where
  "wf_mat D y = (length y = D \<and> (\<forall>r<D. length (y ! r) = D))"

text \<open>
  \<open>off D j\<close> is the position in \<open>x\<close> where the entries of column \<open>j\<close> start,
  and \<open>Scum y r c\<close> the sum of the squares of the first \<open>c\<close> entries of row \<open>r\<close>.
  \<open>col_ok\<close> says that column \<open>c\<close> holds what the recursion of \<^verbatim>\<open>_call\<close>
  puts there; \<open>call_inv\<close> is the invariant of its loop on entry to column \<open>j\<close>.
\<close>

definition off :: "nat \<Rightarrow> nat \<Rightarrow> nat" where
  "off D j = (\<Sum>c<j. D - 1 - c)"

definition Scum :: "mat \<Rightarrow> nat \<Rightarrow> nat \<Rightarrow> real" where
  "Scum y r c = (\<Sum>k<c. (y ! r ! k)\<^sup>2)"

definition col_ok :: "vec \<Rightarrow> nat \<Rightarrow> mat \<Rightarrow> nat \<Rightarrow> bool" where
  "col_ok x D y c = (\<forall>r<D. y ! r ! c =
      (if r < c then 0
       else if r = c then sqrt (1 - Scum y r c)
       else x ! (off D c + (r - c - 1)) * sqrt (1 - Scum y r c)))"

definition call_inv :: "vec \<Rightarrow> nat \<Rightarrow> nat \<Rightarrow> mat \<times> nat \<times> vec \<Rightarrow> bool" where
  "call_inv x D j s = (case s of (y, i, l) \<Rightarrow>
      wf_mat D y \<and> i = off D j \<and> length l = D + 1 - j
      \<and> (\<forall>k<D + 1 - j. l ! k = Scum y (j - 1 + k) (j - 1))
      \<and> (\<forall>r<D. \<forall>c<D. j \<le> c \<longrightarrow> y ! r ! c = 0)
      \<and> (\<forall>c<j. col_ok x D y c))"

definition chol_of :: "vec \<Rightarrow> nat \<Rightarrow> mat \<Rightarrow> bool" where
  "chol_of x D y = (wf_mat D y \<and> (\<forall>c<D. col_ok x D y c))"



section \<open>Rounding to single precision\<close>








section \<open>The operations over the reals\<close>

lemma exact_fields:
  "a_const exact_arith r = r" "a_add exact_arith = (+)" "a_sub exact_arith = (-)"
  "a_mul exact_arith = (*)" "a_div exact_arith = (/)" "a_sqrt exact_arith = sqrt"
  "a_log exact_arith = ln" "a_tanh exact_arith = tanh" "a_cosh exact_arith = cosh"
  by (simp_all add: exact_arith_def)

lemma zeros_exact: "zeros exact_arith n = replicate n 0"
  by (simp add: zeros_def exact_fields)

lemma zeros2_exact: "zeros2 exact_arith r c = replicate r (replicate c 0)"
  by (simp add: zeros2_def exact_fields)




lemma cumsum_from_length: "length (cumsum_from ar acc xs) = length xs"
  by (induction xs arbitrary: acc) simp_all

lemma cumsum_from_exact_nth:
  "k < length xs \<Longrightarrow> cumsum_from exact_arith acc xs ! k = acc + sum_list (take (Suc k) xs)"
proof (induction xs arbitrary: acc k)
  case Nil
  then show ?case by simp
next
  case (Cons v vs)
  show ?case
  proof (cases k)
    case 0
    then show ?thesis by (simp add: exact_fields)
  next
    case (Suc m)
    then have "m < length vs" using Cons.prems by simp
    from Cons.IH[OF this, of "acc + v"] Suc show ?thesis by (simp add: exact_fields)
  qed
qed

lemma cumsum_exact:
  "cumsum exact_arith xs = map (\<lambda>k. sum_list (take (Suc k) xs)) [0..<length xs]"
proof (rule nth_equalityI)
  show "length (cumsum exact_arith xs) = length (map (\<lambda>k. sum_list (take (Suc k) xs)) [0..<length xs])"
    by (simp add: cumsum_def cumsum_from_length)
next
  fix k assume "k < length (cumsum exact_arith xs)"
  then have k: "k < length xs" by (simp add: cumsum_def cumsum_from_length)
  have "cumsum exact_arith xs ! k = cumsum_from exact_arith 0 xs ! k"
    by (simp add: cumsum_def exact_fields)
  also have "\<dots> = 0 + sum_list (take (Suc k) xs)" by (rule cumsum_from_exact_nth[OF k])
  finally show "cumsum exact_arith xs ! k = map (\<lambda>k. sum_list (take (Suc k) xs)) [0..<length xs] ! k"
    using k by simp
qed

lemma call_step_exact:
  "call_step exact_arith x D s j =
     (case s of (y, i, last_squared_y) \<Rightarrow>
        let distance_to_copy = D - 1 - j;
            last_squared_y' =
              map2 (+) (tl last_squared_y) (map (\<lambda>v. v\<^sup>2) (col_from y j (j - 1)));
            y1 = set_entry y j j (sqrt (1 - hd last_squared_y'));
            y2 = set_col_from y1 (j + 1) j
                   (map2 (*) (slice x i (i + distance_to_copy))
                             (map (\<lambda>s. sqrt (1 - s)) (tl last_squared_y')))
        in (y2, i + distance_to_copy, last_squared_y'))"
  by (simp add: call_step_def exact_fields power2_eq_square)

lemma PartialCorr_call_exact:
  "PartialCorr_call exact_arith x =
     (let Dr = dim_of_len (length x) in
      if frac Dr \<noteq> 0 then Inl ValueError
      else
        let D = nat \<lfloor>Dr\<rfloor>;
            y0 = set_col_from (set_entry (zeros2 exact_arith D D) 0 0 1) 1 0 (slice x 0 (D - 1))
        in Inr (fst (foldl (call_step exact_arith x D) (y0, D - 1, zeros exact_arith D) [1..<D])))"
  unfolding PartialCorr_call_def exact_fields ..

lemma inverse_row_exact:
  "inverse_row exact_arith y i =
     map2 (/) (slice (y ! i) 1 i)
              (map (\<lambda>s. sqrt (1 - s))
                   (cumsum exact_arith (map (\<lambda>v. v\<^sup>2) (slice (y ! i) 0 (i - 1)))))"
  by (simp add: inverse_row_def exact_fields power2_eq_square)


section \<open>Indices and tensor operations\<close>

lemma dim_of_len_tri:
  assumes "1 \<le> d"
  shows "dim_of_len (d * (d - 1) div 2) = real d"
proof -
  have ev: "even (d * (d - 1))" by (cases d) simp_all
  have "real (d * (d - 1) div 2) = real (d * (d - 1)) / 2"
    using ev by (simp add: real_of_nat_div)
  also have "\<dots> = real d * (real d - 1) / 2"
    using assms by (simp add: of_nat_diff)
  finally have e: "real (d * (d - 1) div 2) = real d * (real d - 1) / 2" .
  have "1 + 8 * real (d * (d - 1) div 2) = (2 * real d - 1)\<^sup>2"
    unfolding e by (simp add: power2_eq_square field_simps)
  moreover have "0 \<le> 2 * real d - 1" using assms by simp
  ultimately have "sqrt (1 + 8 * real (d * (d - 1) div 2)) = 2 * real d - 1"
    by (simp add: real_sqrt_abs)
  then show ?thesis by (simp add: dim_of_len_def)
qed

lemma off_0: "off D 0 = 0" by (simp add: off_def)

lemma off_Suc: "off D (Suc j) = off D j + (D - 1 - j)" by (simp add: off_def)

lemma off_mono: "j \<le> k \<Longrightarrow> off D j \<le> off D k"
  unfolding off_def by (rule sum_mono2) auto

lemma off_total: "2 * off D D = D * (D - 1)"
proof -
  have "j \<le> D \<Longrightarrow> 2 * off D j + (D - j) * (D - j - 1) = D * (D - 1)" for j
  proof (induction j)
    case 0 then show ?case by (simp add: off_0)
  next
    case (Suc j)
    then have jl: "j < D" by simp
    obtain m where m: "D = Suc j + m" using Suc.prems by (metis le_Suc_ex)
    from Suc.IH jl have "2 * off D j + (D - j) * (D - j - 1) = D * (D - 1)" by simp
    then show ?case unfolding off_Suc m by (simp add: algebra_simps)
  qed
  from this[of D] show ?thesis by simp
qed

lemma off_D: "off D D = D * (D - 1) div 2"
  using off_total[of D] by simp

lemma set_entry_length: "length (set_entry y r c v) = length y"
  by (simp add: set_entry_def)

lemma set_entry_row_length: "r' < length y \<Longrightarrow> length (set_entry y r c v ! r') = length (y ! r')"
  by (cases "r' = r") (simp_all add: set_entry_def)

lemma set_entry_nth:
  "r' < length y \<Longrightarrow> c' < length (y ! r') \<Longrightarrow>
   set_entry y r c v ! r' ! c' = (if r' = r \<and> c' = c then v else y ! r' ! c')"
  by (cases "r' = r"; cases "c' = c") (simp_all add: set_entry_def)

lemma set_col_from_length: "length (set_col_from y r0 c vs) = length y"
  by (simp add: set_col_from_def)

lemma set_col_from_row_length:
  "r < length y \<Longrightarrow> length (set_col_from y r0 c vs ! r) = length (y ! r)"
  by (simp add: set_col_from_def)

lemma set_col_from_nth:
  "r < length y \<Longrightarrow> c' < length (y ! r) \<Longrightarrow>
   set_col_from y r0 c vs ! r ! c' = (if r0 \<le> r \<and> c' = c then vs ! (r - r0) else y ! r ! c')"
  by (simp add: set_col_from_def nth_list_update)

lemma col_from_length: "length (col_from y r0 c) = length y - r0"
  by (simp add: col_from_def)

lemma col_from_nth: "r0 + k < length y \<Longrightarrow> col_from y r0 c ! k = y ! (r0 + k) ! c"
  using nth_drop[of r0 y k] by (simp add: col_from_def)

lemma slice_length: "b \<le> length xs \<Longrightarrow> length (slice xs a b) = b - a"
  by (simp add: slice_def)

lemma slice_nth: "a + k < b \<Longrightarrow> b \<le> length xs \<Longrightarrow> slice xs a b ! k = xs ! (a + k)"
  by (simp add: slice_def)

lemma Scum_cong: "(\<And>k. k < c \<Longrightarrow> y ! r ! k = y' ! r ! k) \<Longrightarrow> Scum y r c = Scum y' r c"
  by (simp add: Scum_def)

lemma Scum_Suc: "Scum y r (Suc c) = Scum y r c + (y ! r ! c)\<^sup>2"
  by (simp add: Scum_def)

section \<open>The loop of the forward map\<close>

lemma zeros2_wf: "wf_mat D (zeros2 exact_arith D D)"
  by (simp add: wf_mat_def zeros2_exact)

lemma zeros2_nth: "r < n \<Longrightarrow> c < m \<Longrightarrow> zeros2 exact_arith n m ! r ! c = 0"
  by (simp add: zeros2_exact)

lemma wf_set_entry: "wf_mat D y \<Longrightarrow> wf_mat D (set_entry y r c v)"
  by (simp add: wf_mat_def set_entry_length set_entry_row_length)

lemma wf_set_col_from: "wf_mat D y \<Longrightarrow> wf_mat D (set_col_from y r0 c vs)"
  by (simp add: wf_mat_def set_col_from_length set_col_from_row_length)

lemma call_inv_init:
  assumes D: "1 \<le> D" and len: "D - 1 \<le> length x"
  shows "call_inv x D 1
           (set_col_from (set_entry (zeros2 exact_arith D D) 0 0 1) 1 0 (slice x 0 (D - 1)), D - 1, zeros exact_arith D)"
proof -
  define y1 where "y1 = set_entry (zeros2 exact_arith D D) 0 0 1"
  define y where "y = set_col_from y1 1 0 (slice x 0 (D - 1))"
  have wf1: "wf_mat D y1" unfolding y1_def by (rule wf_set_entry[OF zeros2_wf])
  have wf: "wf_mat D y" unfolding y_def by (rule wf_set_col_from[OF wf1])
  have e1: "y1 ! r ! c = (if r = 0 \<and> c = 0 then 1 else 0)" if "r < D" "c < D" for r c
    unfolding y1_def using that zeros2_wf[of D] by (simp add: set_entry_nth wf_mat_def zeros2_nth)
  have e: "y ! r ! c = (if c = 0 then (if r = 0 then 1 else x ! (r - 1)) else 0)"
    if "r < D" "c < D" for r c
  proof -
    have "y ! r ! c = (if 1 \<le> r \<and> c = 0 then slice x 0 (D - 1) ! (r - 1) else y1 ! r ! c)"
      unfolding y_def using that wf1 by (simp add: set_col_from_nth wf_mat_def)
    moreover have "slice x 0 (D - 1) ! (r - 1) = x ! (r - 1)" if "1 \<le> r"
      using slice_nth[of 0 "r - 1" "D - 1" x] that \<open>r < D\<close> len by simp
    ultimately show ?thesis using e1[OF that] by auto
  qed
  have off1: "off D 1 = D - 1" using off_Suc[of D 0] by (simp add: off_0)
  have c0: "col_ok x D y c" if "c < 1" for c
    unfolding col_ok_def using D that by (auto simp: e Scum_def off_0)
  have z: "y ! r ! c = 0" if "r < D" "c < D" "1 \<le> c" for r c
    using e[OF that(1,2)] that(3) by simp
  have lk: "zeros exact_arith D ! k = Scum y (1 - 1 + k) (1 - 1)" if "k < D + 1 - 1" for k
    using that by (simp add: zeros_exact Scum_def)
  have "call_inv x D 1 (y, D - 1, zeros exact_arith D)"
    unfolding call_inv_def using wf off1 c0 z lk by (simp add: zeros_exact)
  then show ?thesis unfolding y_def y1_def .
qed

lemma call_inv_step:
  assumes inv: "call_inv x D j s" and j: "1 \<le> j" "j < D" and len: "off D D \<le> length x"
  shows "call_inv x D (Suc j) (call_step exact_arith x D s j)"
proof -
  obtain y i l where s: "s = (y, i, l)" by (cases s) auto
  from inv have wf: "wf_mat D y" and i: "i = off D j" and ll: "length l = D + 1 - j"
    and lk: "\<And>k. k < D + 1 - j \<Longrightarrow> l ! k = Scum y (j - 1 + k) (j - 1)"
    and z: "\<And>r c. r < D \<Longrightarrow> c < D \<Longrightarrow> j \<le> c \<Longrightarrow> y ! r ! c = 0"
    and ok: "\<And>c. c < j \<Longrightarrow> col_ok x D y c"
    unfolding s call_inv_def by auto
  from wf have ly: "length y = D" and lr: "\<And>r. r < D \<Longrightarrow> length (y ! r) = D"
    by (auto simp: wf_mat_def)
  define dist where "dist = D - 1 - j"
  define l' where "l' = map2 (+) (tl l) (map (\<lambda>v. v\<^sup>2) (col_from y j (j - 1)))"
  define vals where "vals = map2 (*) (slice x i (i + dist)) (map (\<lambda>s. sqrt (1 - s)) (tl l'))"
  define y1 where "y1 = set_entry y j j (sqrt (1 - hd l'))"
  define y2 where "y2 = set_col_from y1 (j + 1) j vals"
  have step: "call_step exact_arith x D s j = (y2, i + dist, l')"
    unfolding s call_step_exact by (simp add: Let_def dist_def l'_def vals_def y1_def y2_def)
  have ll': "length l' = D - j"
    using ll j by (simp add: l'_def col_from_length ly)
  have l'k: "l' ! k = Scum y (j + k) j" if "k < D - j" for k
  proof -
    have "l' ! k = tl l ! k + (col_from y j (j - 1) ! k)\<^sup>2"
      using that ll j by (simp add: l'_def col_from_length ly)
    also have "tl l ! k = l ! Suc k" using that ll j by (simp add: nth_tl)
    also have "l ! Suc k = Scum y (j - 1 + Suc k) (j - 1)" using that j by (intro lk) simp
    also have "col_from y j (j - 1) ! k = y ! (j + k) ! (j - 1)"
      using that ly by (intro col_from_nth) simp
    finally have "l' ! k = Scum y (j + k) (j - 1) + (y ! (j + k) ! (j - 1))\<^sup>2"
      using j by simp
    also have "\<dots> = Scum y (j + k) (Suc (j - 1))" by (simp add: Scum_Suc)
    finally show ?thesis using j by simp
  qed
  have hd': "hd l' = Scum y j j"
  proof -
    have "l' \<noteq> []" using ll' j by auto
    then show ?thesis using l'k[of 0] j by (simp add: hd_conv_nth)
  qed
  have io: "i + dist = off D (Suc j)" by (simp add: i off_Suc dist_def)
  have ile: "i + dist \<le> length x"
    using off_mono[of "Suc j" D D] j len io by simp
  have lv: "length vals = dist"
    using ile ll' by (simp add: vals_def slice_length dist_def)
  have vk: "vals ! m = x ! (off D j + m) * sqrt (1 - Scum y (Suc j + m) j)" if "m < dist" for m
  proof -
    have "vals ! m = slice x i (i + dist) ! m * sqrt (1 - tl l' ! m)"
      using that ile ll' by (simp add: vals_def slice_length dist_def)
    also have "slice x i (i + dist) ! m = x ! (i + m)"
      using that ile by (intro slice_nth) simp_all
    also have "tl l' ! m = l' ! Suc m" using that ll' by (simp add: nth_tl dist_def)
    also have "l' ! Suc m = Scum y (j + Suc m) j" using that by (intro l'k) (simp add: dist_def)
    finally show ?thesis by (simp add: i)
  qed
  have wf1: "wf_mat D y1" unfolding y1_def by (rule wf_set_entry[OF wf])
  have wf2: "wf_mat D y2" unfolding y2_def by (rule wf_set_col_from[OF wf1])
  have e2: "y2 ! r ! c =
      (if c = j \<and> j \<le> r then (if r = j then sqrt (1 - Scum y j j) else vals ! (r - j - 1))
       else y ! r ! c)" if "r < D" "c < D" for r c
  proof -
    have "y2 ! r ! c = (if j + 1 \<le> r \<and> c = j then vals ! (r - (j + 1)) else y1 ! r ! c)"
      unfolding y2_def using that wf1 by (simp add: set_col_from_nth wf_mat_def)
    moreover have "y1 ! r ! c = (if r = j \<and> c = j then sqrt (1 - Scum y j j) else y ! r ! c)"
      unfolding y1_def hd' using that ly lr by (simp add: set_entry_nth)
    ultimately show ?thesis by auto
  qed
  have same: "y2 ! r ! c = y ! r ! c" if "r < D" "c < D" "c \<noteq> j" for r c
    using e2[OF that(1,2)] that(3) by simp
  have S2: "Scum y2 r c = Scum y r c" if "r < D" "c \<le> j" for r c
    using that j by (intro Scum_cong same) simp_all
  have okj: "col_ok x D y2 j"
    unfolding col_ok_def
  proof (intro allI impI)
    fix r assume r: "r < D"
    show "y2 ! r ! j = (if r < j then 0 else if r = j then sqrt (1 - Scum y2 r j)
            else x ! (off D j + (r - j - 1)) * sqrt (1 - Scum y2 r j))"
    proof (cases "r < j")
      case True
      then show ?thesis using e2[OF r j(2)] z[OF r j(2)] by simp
    next
      case False
      show ?thesis
      proof (cases "r = j")
        case True
        then show ?thesis using e2[OF r j(2)] S2[OF r] by simp
      next
        case False
        with \<open>\<not> r < j\<close> have rj: "j < r" by simp
        then have m: "r - j - 1 < dist" using r by (simp add: dist_def)
        have "Suc j + (r - j - 1) = r" using rj by simp
        then show ?thesis using e2[OF r j(2)] vk[OF m] S2[OF r] rj by simp
      qed
    qed
  qed
  have okc: "col_ok x D y2 c" if "c < j" for c
    using ok[OF that] that j unfolding col_ok_def by (simp add: same S2)
  have ok': "col_ok x D y2 c" if "c < Suc j" for c
    using that okj okc by (cases "c = j") auto
  have z': "y2 ! r ! c = 0" if "r < D" "c < D" "Suc j \<le> c" for r c
    using same[OF that(1,2)] z[OF that(1,2)] that(3) by simp
  have lk': "l' ! k = Scum y2 (Suc j - 1 + k) (Suc j - 1)" if "k < D + 1 - Suc j" for k
    using l'k[of k] that S2[of "j + k" j] by simp
  show ?thesis
    unfolding step call_inv_def using wf2 io ll' lk' z' ok' by simp
qed

lemma call_inv_fold:
  assumes D: "1 \<le> D" and len: "off D D \<le> length x"
  shows "1 \<le> n \<Longrightarrow> n \<le> D \<Longrightarrow> call_inv x D n (foldl (call_step exact_arith x D)
           (set_col_from (set_entry (zeros2 exact_arith D D) 0 0 1) 1 0 (slice x 0 (D - 1)), D - 1, zeros exact_arith D)
           [1..<n])"
proof (induction n)
  case 0
  then show ?case by simp
next
  case (Suc n)
  show ?case
  proof (cases "n = 0")
    case True
    have "D - 1 \<le> off D D"
      using off_mono[of 1 D D] D off_Suc[of D 0] by (simp add: off_0)
    then have "D - 1 \<le> length x" using len by simp
    from call_inv_init[OF D this] True show ?thesis by simp
  next
    case False
    then have n: "1 \<le> n" "n < D" using Suc.prems by simp_all
    then have IH: "call_inv x D n (foldl (call_step exact_arith x D)
           (set_col_from (set_entry (zeros2 exact_arith D D) 0 0 1) 1 0 (slice x 0 (D - 1)), D - 1, zeros exact_arith D)
           [1..<n])" using Suc.IH by simp
    have "[1..<Suc n] = [1..<n] @ [n]" using n by simp
    then show ?thesis using call_inv_step[OF IH n len] by simp
  qed
qed

lemma PartialCorr_call_chol:
  assumes d: "1 \<le> d" and len: "length x = d * (d - 1) div 2"
  shows "\<exists>y. PartialCorr_call exact_arith x = Inr y \<and> chol_of x d y"
proof -
  have Dr: "dim_of_len (length x) = real d" unfolding len by (rule dim_of_len_tri[OF d])
  have len': "off d d \<le> length x" by (simp add: off_D len)
  have call: "PartialCorr_call exact_arith x = Inr (fst (foldl (call_step exact_arith x d)
           (set_col_from (set_entry (zeros2 exact_arith d d) 0 0 1) 1 0 (slice x 0 (d - 1)), d - 1, zeros exact_arith d)
           [1..<d]))"
    unfolding PartialCorr_call_exact Dr by (simp add: Let_def)
  from call_inv_fold[OF d len', of d] d
  have "call_inv x d d (foldl (call_step exact_arith x d)
           (set_col_from (set_entry (zeros2 exact_arith d d) 0 0 1) 1 0 (slice x 0 (d - 1)), d - 1, zeros exact_arith d)
           [1..<d])" by simp
  then have "chol_of x d (fst (foldl (call_step exact_arith x d)
           (set_col_from (set_entry (zeros2 exact_arith d d) 0 0 1) 1 0 (slice x 0 (d - 1)), d - 1, zeros exact_arith d)
           [1..<d]))"
    unfolding call_inv_def chol_of_def by (auto split: prod.splits)
  with call show ?thesis by blast
qed

section \<open>Properties of the forward image\<close>

lemma off_index:
  assumes "c < r" "r < D"
  shows "off D c + (r - c - 1) < off D D"
proof -
  have "off D c + (r - c - 1) < off D (Suc c)" using assms by (simp add: off_Suc)
  also have "\<dots> \<le> off D D" using assms by (intro off_mono) simp
  finally show ?thesis .
qed

lemma chol_entry:
  assumes "chol_of x D y" "r < D" "c < D"
  shows "y ! r ! c = (if r < c then 0 else if r = c then sqrt (1 - Scum y r c)
            else x ! (off D c + (r - c - 1)) * sqrt (1 - Scum y r c))"
  using assms unfolding chol_of_def col_ok_def by blast

lemma chol_pc_bounds:
  assumes int: "interior x" and len: "length x = off D D" and cr: "c < r" "r < D"
  shows "(x ! (off D c + (r - c - 1)))\<^sup>2 < 1"
proof -
  have "off D c + (r - c - 1) < length x" using off_index[OF cr] len by simp
  then have "x ! (off D c + (r - c - 1)) \<in> set x" by simp
  then have "-1 < x ! (off D c + (r - c - 1)) \<and> x ! (off D c + (r - c - 1)) < 1"
    using int by (simp add: interior_def list_all_iff)
  then have "\<bar>x ! (off D c + (r - c - 1))\<bar> < 1" by (simp add: abs_less_iff)
  then show ?thesis by (simp add: abs_square_less_1)
qed

lemma chol_radius_pos:
  assumes ch: "chol_of x D y" and int: "interior x" and len: "length x = off D D"
    and r: "r < D"
  shows "c \<le> r \<Longrightarrow> 0 < 1 - Scum y r c"
proof (induction c)
  case 0
  then show ?case by (simp add: Scum_def)
next
  case (Suc c)
  then have cr: "c < r" and IH: "0 < 1 - Scum y r c" by simp_all
  let ?p = "x ! (off D c + (r - c - 1))"
  have e: "y ! r ! c = ?p * sqrt (1 - Scum y r c)"
    using chol_entry[OF ch r, of c] cr r by simp
  have "(y ! r ! c)\<^sup>2 = ?p\<^sup>2 * (1 - Scum y r c)"
    unfolding e using IH by (simp add: power_mult_distrib)
  then have "1 - Scum y r (Suc c) = (1 - Scum y r c) * (1 - ?p\<^sup>2)"
    by (simp add: Scum_Suc algebra_simps)
  moreover have "0 < 1 - ?p\<^sup>2" using chol_pc_bounds[OF int len cr r] by simp
  ultimately show ?case using IH by simp
qed




lemma sum_list_squares: "sum_list (map (\<lambda>v. v\<^sup>2) row) = (\<Sum>k<length row. (row ! k)\<^sup>2)"
proof -
  have "sum_list (map (\<lambda>v. v\<^sup>2) row) = (\<Sum>k = 0..<length row. (map (\<lambda>v. v\<^sup>2) row) ! k)"
    by (simp add: sum_list_sum_nth)
  also have "\<dots> = (\<Sum>k = 0..<length row. (row ! k)\<^sup>2)" by (intro sum.cong) simp_all
  finally show ?thesis by (simp add: lessThan_atLeast0)
qed


section \<open>The inverse map on the forward image\<close>

lemma wf_mat_dims: "wf_mat D y \<Longrightarrow> 1 \<le> D \<Longrightarrow> nrows y = D \<and> ncols y = D"
proof -
  assume wf: "wf_mat D y" and D: "1 \<le> D"
  then obtain r rs where y: "y = r # rs" by (cases y) (auto simp: wf_mat_def)
  have "length (y ! 0) = D" using wf D by (simp add: wf_mat_def)
  then show ?thesis using wf by (simp add: y nrows_def ncols_def wf_mat_def)
qed

lemma sum_list_take_squares:
  "n \<le> length row \<Longrightarrow> sum_list (take n (map (\<lambda>v. v\<^sup>2) row)) = (\<Sum>k<n. (row ! k)\<^sup>2)"
  using sum_list_squares[of "take n row"] by (simp add: take_map)

lemma cumsum_length: "length (cumsum exact_arith xs) = length xs"
  by (simp add: cumsum_exact)

lemma cumsum_squares_nth:
  assumes "c < n" "n \<le> length row"
  shows "cumsum exact_arith (map (\<lambda>v. v\<^sup>2) (slice row 0 n)) ! c = (\<Sum>k<Suc c. (row ! k)\<^sup>2)"
proof -
  have s: "slice row 0 n = take n row" by (simp add: slice_def)
  have "cumsum exact_arith (map (\<lambda>v. v\<^sup>2) (take n row)) ! c
        = sum_list (take (Suc c) (map (\<lambda>v. v\<^sup>2) (take n row)))"
    using assms by (simp add: cumsum_exact)
  also have "\<dots> = (\<Sum>k<Suc c. (take n row ! k)\<^sup>2)"
    using assms by (intro sum_list_take_squares) simp
  also have "\<dots> = (\<Sum>k<Suc c. (row ! k)\<^sup>2)"
    using assms by (intro sum.cong) simp_all
  finally show ?thesis unfolding s .
qed

lemma inverse_row_length:
  assumes "1 \<le> i" "i \<le> length (y ! i)"
  shows "length (inverse_row exact_arith y i) = i - 1"
  using assms by (simp add: inverse_row_exact slice_length cumsum_length)

lemma inverse_row_nth:
  assumes "c + 1 < i" "i \<le> length (y ! i)"
  shows "inverse_row exact_arith y i ! c = y ! i ! (c + 1) / sqrt (1 - Scum y i (c + 1))"
proof -
  have l1: "length (slice (y ! i) 1 i) = i - 1" using assms by (simp add: slice_length)
  have l2: "length (cumsum exact_arith (map (\<lambda>v. v\<^sup>2) (slice (y ! i) 0 (i - 1)))) = i - 1"
    using assms by (simp add: cumsum_length slice_length)
  have "inverse_row exact_arith y i ! c = slice (y ! i) 1 i ! c /
          sqrt (1 - cumsum exact_arith (map (\<lambda>v. v\<^sup>2) (slice (y ! i) 0 (i - 1))) ! c)"
    unfolding inverse_row_exact using assms l1 l2 by simp
  also have "slice (y ! i) 1 i ! c = y ! i ! (1 + c)"
    using assms by (intro slice_nth) simp_all
  also have "cumsum exact_arith (map (\<lambda>v. v\<^sup>2) (slice (y ! i) 0 (i - 1))) ! c = (\<Sum>k<Suc c. (y ! i ! k)\<^sup>2)"
    using assms by (intro cumsum_squares_nth) simp_all
  finally show ?thesis by (simp add: Scum_def)
qed

lemma set_row_slice_length: "length (set_row_slice z r c0 vs) = length z"
  by (simp add: set_row_slice_def)

lemma set_row_slice_other: "k \<noteq> r \<Longrightarrow> set_row_slice z r c0 vs ! k = z ! k"
  by (simp add: set_row_slice_def)

lemma set_row_slice_same:
  "r < length z \<Longrightarrow> j < length vs \<Longrightarrow> set_row_slice z r 0 vs ! r ! j = vs ! j"
  by (simp add: set_row_slice_def nth_append)

lemma z_tri_fold:
  "n \<le> m + 2 \<Longrightarrow>
   length (foldl (\<lambda>z i. set_row_slice z (i - 2) 0 (f i)) z0 [2..<n]) = length z0 \<and>
   (\<forall>k j. k + 2 < n \<longrightarrow> k < length z0 \<longrightarrow> j < length (f (k + 2)) \<longrightarrow>
      foldl (\<lambda>z i. set_row_slice z (i - 2) 0 (f i)) z0 [2..<n] ! k ! j = f (k + 2) ! j)"
proof (induction n)
  case 0
  then show ?case by simp
next
  case (Suc n)
  show ?case
  proof (cases "2 \<le> n")
    case False
    then show ?thesis by simp
  next
    case True
    let ?Z = "foldl (\<lambda>z i. set_row_slice z (i - 2) 0 (f i)) z0 [2..<n]"
    have up: "[2..<Suc n] = [2..<n] @ [n]" using True by simp
    have Z': "foldl (\<lambda>z i. set_row_slice z (i - 2) 0 (f i)) z0 [2..<Suc n]
              = set_row_slice ?Z (n - 2) 0 (f n)"
      unfolding up by simp
    from Suc have IH1: "length ?Z = length z0"
      and IH2: "\<And>k j. k + 2 < n \<Longrightarrow> k < length z0 \<Longrightarrow> j < length (f (k + 2)) \<Longrightarrow>
                  ?Z ! k ! j = f (k + 2) ! j" by simp_all
    have "set_row_slice ?Z (n - 2) 0 (f n) ! k ! j = f (k + 2) ! j"
      if "k + 2 < Suc n" "k < length z0" "j < length (f (k + 2))" for k j
    proof (cases "k = n - 2")
      case True
      then have "k + 2 = n" using \<open>2 \<le> n\<close> by simp
      then show ?thesis using that IH1 True set_row_slice_same[of k ?Z j "f n"] by simp
    next
      case False
      then have "k + 2 < n" using that by simp
      then show ?thesis using False that IH2 by (simp add: set_row_slice_other)
    qed
    then show ?thesis unfolding Z' using IH1 by (simp add: set_row_slice_length)
  qed
qed

lemma concat_segments:
  "off D n \<le> length x \<Longrightarrow>
   concat (map (\<lambda>j. slice x (off D j) (off D (Suc j))) [0..<n]) = take (off D n) x"
proof (induction n)
  case 0
  then show ?case by (simp add: off_0)
next
  case (Suc n)
  have "off D n \<le> off D (Suc n)" by (simp add: off_Suc)
  then have IH: "concat (map (\<lambda>j. slice x (off D j) (off D (Suc j))) [0..<n]) = take (off D n) x"
    using Suc by simp
  have "take (off D n + (D - 1 - n)) x = take (off D n) x @ take (D - 1 - n) (drop (off D n) x)"
    by (rule take_add)
  then show ?case using IH by (simp add: slice_def off_Suc)
qed

lemma off_pred: "1 \<le> D \<Longrightarrow> off D (D - 1) = off D D"
  using off_Suc[of D "D - 1"] by simp

lemma chol_quotient:
  assumes ch: "chol_of x D y" and int: "interior x" and len: "length x = off D D"
    and cr: "c < r" "r < D"
  shows "y ! r ! c / sqrt (1 - Scum y r c) = x ! (off D c + (r - c - 1))"
proof -
  have "0 < 1 - Scum y r c" using chol_radius_pos[OF ch int len cr(2), of c] cr by simp
  then have "sqrt (1 - Scum y r c) \<noteq> 0" by simp
  moreover have "y ! r ! c = x ! (off D c + (r - c - 1)) * sqrt (1 - Scum y r c)"
    using chol_entry[OF ch cr(2), of c] cr by simp
  ultimately show ?thesis by simp
qed

lemma inverse_of_chol:
  assumes ch: "chol_of x D y" and int: "interior x" and len: "length x = off D D"
    and D: "2 \<le> D"
  shows "PartialCorr_inverse exact_arith y = Inr x"
proof -
  have wf: "wf_mat D y" using ch by (simp add: chol_of_def)
  then have ly: "length y = D" and lr: "\<And>r. r < D \<Longrightarrow> length (y ! r) = D"
    by (auto simp: wf_mat_def)
  have dims: "nrows y = D" "ncols y = D" using wf_mat_dims[OF wf] D by simp_all
  define Z where "Z = foldl (\<lambda>z i. set_row_slice z (i - 2) 0 (inverse_row exact_arith y i))
                        (zeros2 exact_arith (D - 2) (D - 2)) [2..<D]"
  have inv: "PartialCorr_inverse exact_arith y
             = Inr (concat ([col_from y 1 0] @ map (\<lambda>j. col_from Z j j) [0..<D - 2]))"
    unfolding PartialCorr_inverse_def dims Z_def using D by (simp add: Let_def)
  have zf: "length Z = D - 2"
    and zn: "\<And>k j. k + 2 < D \<Longrightarrow> j < length (inverse_row exact_arith y (k + 2)) \<Longrightarrow>
               Z ! k ! j = inverse_row exact_arith y (k + 2) ! j"
    using z_tri_fold[of D "D - 2" "inverse_row exact_arith y" "zeros2 exact_arith (D - 2) (D - 2)"] D
    unfolding Z_def by (simp_all add: zeros2_exact)
  have zx: "Z ! k ! j = x ! (off D (Suc j) + (k - j))" if "k + 2 < D" "j \<le> k" for k j
  proof -
    have il: "length (inverse_row exact_arith y (k + 2)) = k + 1"
      using inverse_row_length[of "k + 2" y] lr[of "k + 2"] that by simp
    have "Z ! k ! j = inverse_row exact_arith y (k + 2) ! j" using that il by (intro zn) simp_all
    also have "\<dots> = y ! (k + 2) ! (j + 1) / sqrt (1 - Scum y (k + 2) (j + 1))"
      using that lr[of "k + 2"] by (intro inverse_row_nth) simp_all
    also have "\<dots> = x ! (off D (j + 1) + (k + 2 - (j + 1) - 1))"
      using that by (intro chol_quotient[OF ch int len]) simp_all
    finally show ?thesis using that by simp
  qed
  have seg_le: "off D (Suc j) \<le> length x" if "j < D" for j
    using off_mono[of "Suc j" D D] that len by simp
  have c0: "col_from y 1 0 = slice x (off D 0) (off D (Suc 0))"
  proof (rule nth_equalityI)
    show "length (col_from y 1 0) = length (slice x (off D 0) (off D (Suc 0)))"
      using seg_le[of 0] D by (simp add: col_from_length ly slice_length off_Suc off_0)
  next
    fix m assume "m < length (col_from y 1 0)"
    then have m: "m + 1 < D" by (simp add: col_from_length ly)
    have "col_from y 1 0 ! m = y ! (1 + m) ! 0" using m ly by (intro col_from_nth) simp
    also have "\<dots> = x ! m"
      using chol_entry[OF ch, of "1 + m" 0] m by (simp add: Scum_def off_0)
    also have "x ! m = slice x (off D 0) (off D (Suc 0)) ! m"
      using m seg_le[of 0] slice_nth[of 0 m "off D (Suc 0)" x]
      by (simp add: off_0 off_Suc)
    finally show "col_from y 1 0 ! m = slice x (off D 0) (off D (Suc 0)) ! m" .
  qed
  have cj: "col_from Z j j = slice x (off D (Suc j)) (off D (Suc (Suc j)))" if "j < D - 2" for j
  proof (rule nth_equalityI)
    show "length (col_from Z j j) = length (slice x (off D (Suc j)) (off D (Suc (Suc j))))"
      using seg_le[of "Suc j"] that by (simp add: col_from_length zf slice_length off_Suc)
  next
    fix m assume "m < length (col_from Z j j)"
    then have m: "j + m < D - 2" by (simp add: col_from_length zf)
    have "col_from Z j j ! m = Z ! (j + m) ! j" using m zf by (intro col_from_nth) simp
    also have "\<dots> = x ! (off D (Suc j) + m)" using m zx[of "j + m" j] by simp
    also have "\<dots> = slice x (off D (Suc j)) (off D (Suc (Suc j))) ! m"
      using m seg_le[of "Suc j"] slice_nth[of "off D (Suc j)" m "off D (Suc (Suc j))" x]
      by (simp add: off_Suc)
    finally show "col_from Z j j ! m = slice x (off D (Suc j)) (off D (Suc (Suc j))) ! m" .
  qed
  have "map (\<lambda>j. col_from Z j j) [0..<D - 2]
        = map (\<lambda>j. slice x (off D (Suc j)) (off D (Suc (Suc j)))) [0..<D - 2]"
    using cj by (intro map_cong) simp_all
  also have "\<dots> = map (\<lambda>j. slice x (off D j) (off D (Suc j))) (map Suc [0..<D - 2])"
    by (simp add: comp_def)
  also have "map Suc [0..<D - 2] = [1..<D - 1]"
  proof -
    have "Suc (D - 2) = D - 1" using D by simp
    then show ?thesis using map_Suc_upt[of 0 "D - 2"] by (simp del: upt_Suc)
  qed
  finally have "[col_from y 1 0] @ map (\<lambda>j. col_from Z j j) [0..<D - 2]
        = map (\<lambda>j. slice x (off D j) (off D (Suc j))) (0 # [1..<D - 1])"
    using c0 by simp
  also have "0 # [1..<D - 1] = [0..<D - 1]" using D by (simp add: upt_conv_Cons)
  finally have "concat ([col_from y 1 0] @ map (\<lambda>j. col_from Z j j) [0..<D - 2])
        = take (off D (D - 1)) x"
    using concat_segments[of D "D - 1" x] off_pred[of D] D len by simp
  also have "\<dots> = x" using off_pred[of D] D len by simp
  finally show ?thesis using inv by simp
qed

section \<open>The Jacobian term and the unconstrained transform\<close>





lemma interior_tanh: "interior (map tanh u)"
  by (simp add: interior_def list_all_iff tanh_real_gt_neg1 tanh_real_lt_1)

lemma atanh_tanh_list: "map (\<lambda>v. ln ((1 + v) / (1 - v)) / 2) (map tanh u) = (u :: real list)"
proof -
  have "ln ((1 + tanh v) / (1 - tanh v)) / 2 = v" for v :: real
    using artanh_tanh_real[of v] by (simp add: artanh_def)
  then show ?thesis by (simp add: comp_def)
qed

lemma roundtrip:
  assumes "interior x" "length x = d * (d - 1) div 2" "2 \<le> d"
  shows "\<exists>y. PartialCorr_call exact_arith x = Inr y \<and> PartialCorr_inverse exact_arith y = Inr x"
proof -
  from assms obtain y where y: "PartialCorr_call exact_arith x = Inr y" "chol_of x d y"
    using PartialCorr_call_chol[of d x] by auto
  have "PartialCorr_inverse exact_arith y = Inr x"
    using inverse_of_chol[OF y(2) assms(1) _ assms(3)] assms(2) by (simp add: off_D)
  with y show ?thesis by blast
qed

section \<open>The prior: construction, constant and density\<close>

lemma prod_Suc_fact: "(\<Prod>k\<le>n. 1 + real k) = fact (Suc n)"
  by (induction n) (simp_all add: algebra_simps)

lemma Gamma_series_1: "Gamma_series 1 n = real n / real (Suc n)"
proof -
  have "Gamma_series 1 n = fact n * real n / fact (Suc n)"
    unfolding Gamma_series_def prod_Suc_fact by (cases "n = 0") simp_all
  also have "\<dots> = real n / real (Suc n)" by simp
  finally show ?thesis .
qed

lemma lgamma_1: "lgamma 1 = 0"
proof -
  have "Gamma_series 1 = (\<lambda>n. real n / real (Suc n))" by (rule ext) (rule Gamma_series_1)
  then have "Gamma_series 1 \<longlonglongrightarrow> 1" using LIMSEQ_n_over_Suc_n[where 'a = real] by simp
  then have "lim (Gamma_series 1) = 1" by (rule limI)
  then show ?thesis by (simp add: lgamma_def)
qed

lemma linspace_up:
  assumes "1 \<le> n"
  shows "linspace 1 (real n) (int n) = Inr (map (\<lambda>i. real (Suc i)) [0..<n])"
proof (cases "n = 1")
  case True
  then show ?thesis by (simp add: linspace_def)
next
  case False
  then have n: "2 \<le> n" using assms by simp
  then have "(real n - 1) / (real n - 1) = 1" by simp
  then have "map (\<lambda>i. 1 + (real n - 1) / (real n - 1) * real i) [0..<n]
              = map (\<lambda>i. real (Suc i)) [0..<n]" by simp
  then show ?thesis using n by (simp add: linspace_def)
qed

lemma linspace_down:
  "linspace (real_of_int (int n - 1)) 0 (int n) = Inr (map (\<lambda>i. real (n - 1 - i)) [0..<n])"
proof -
  consider "n = 0" | "n = 1" | "2 \<le> n" by linarith
  then show ?thesis
  proof cases
    case 1 then show ?thesis by (simp add: linspace_def)
  next
    case 2 then show ?thesis by (simp add: linspace_def)
  next
    case 3
    have "real n - 1 + (0 - (real n - 1)) / (real n - 1) * real i = real (n - 1 - i)"
      if "i < n" for i
    proof -
      have "(0 - (real n - 1)) / (real n - 1) = -1" using 3 by (simp add: field_simps)
      then have "real n - 1 + (0 - (real n - 1)) / (real n - 1) * real i = real n - 1 - real i"
        by simp
      also have "\<dots> = real (n - 1 - i)" using that by (simp add: of_nat_diff)
      finally show ?thesis .
    qed
    then have "map (\<lambda>i. real n - 1 + (0 - (real n - 1)) / (real n - 1) * real i) [0..<n]
              = map (\<lambda>i. real (n - 1 - i)) [0..<n]" by (intro map_cong) simp_all
    then show ?thesis using 3 by (simp add: linspace_def)
  qed
qed

lemma sum_list_upt: "sum_list (map f [0..<n]) = (\<Sum>k<n. (f k :: real))"
  by (simp add: interv_sum_list_conv_sum_set_nat lessThan_atLeast0)

lemma lkj_constant_fresh:
  assumes d: "1 \<le> d" and c: "p_lkj_constant self = None"
  shows "lkj_constant self eta d =
     Inr (real (d - 1) * lgamma (eta + real (d - 1) / 2)
            - (\<Sum>k = 1..d - 1. real k * ln pi / 2 + lgamma (eta + (real (d - 1) - real k) / 2)),
          self\<lparr>p_lkj_constant := Some (real (d - 1) * lgamma (eta + real (d - 1) / 2)
            - (\<Sum>k = 1..d - 1. real k * ln pi / 2 + lgamma (eta + (real (d - 1) - real k) / 2)))\<rparr>)"
proof (cases "d = 1")
  case True
  then show ?thesis using c by (simp add: lkj_constant_def linspace_def)
next
  case False
  then have d2: "1 \<le> d - 1" using d by simp
  have i: "int d - 1 = int (d - 1)" using d by simp
  have s: "sum_list (map (\<lambda>k. k * (ln pi * 0.5) + lgamma (eta + 0.5 * (real (d - 1) - k)))
                       (map (\<lambda>i. real (Suc i)) [0..<d - 1]))
           = (\<Sum>k = 1..d - 1. real k * ln pi / 2 + lgamma (eta + (real (d - 1) - real k) / 2))"
  proof -
    have "sum_list (map (\<lambda>k. k * (ln pi * 0.5) + lgamma (eta + 0.5 * (real (d - 1) - k)))
                       (map (\<lambda>i. real (Suc i)) [0..<d - 1]))
          = (\<Sum>j<d - 1. real (Suc j) * (ln pi * 0.5)
                          + lgamma (eta + 0.5 * (real (d - 1) - real (Suc j))))"
      by (simp add: comp_def sum_list_upt del: of_nat_Suc)
    also have "\<dots> = (\<Sum>k = Suc 0..d - 1. real k * (ln pi * 0.5)
                          + lgamma (eta + 0.5 * (real (d - 1) - real k)))"
      by (simp only: sum.atLeast1_atMost_eq)
    also have "\<dots> = (\<Sum>k = 1..d - 1. real k * ln pi / 2
                          + lgamma (eta + (real (d - 1) - real k) / 2))"
      by (intro sum.cong) simp_all
    finally show ?thesis .
  qed
  show ?thesis
    unfolding lkj_constant_def c i
    using linspace_up[OF d2] s by (simp add: Let_def mult.commute)
qed

lemma lkj_constant_returns:
  assumes "1 \<le> p_d self"
  shows "\<exists>c self'. lkj_constant self (p_eta self) (p_d self) = Inr (c, self')
                    \<and> p_lkj_constant self' = Some c"
proof (cases "p_lkj_constant self")
  case None
  show ?thesis using lkj_constant_fresh[OF assms None, of "p_eta self"] by simp
next
  case (Some c)
  then show ?thesis by (simp add: lkj_constant_def)
qed

lemma diagonal_square:
  assumes "wf_mat K y" "1 \<le> K"
  shows "butlast (diagonal y) = map (\<lambda>i. y ! i ! i) [0..<K - 1]"
proof -
  have "diagonal y = map (\<lambda>i. y ! i ! i) [0..<K]"
    using wf_mat_dims[OF assms] by (simp add: diagonal_def)
  moreover have "[0..<K] = [0..<K - 1] @ [K - 1]"
  proof -
    obtain m where m: "K = Suc m" using assms(2) by (cases K) simp_all
    show ?thesis unfolding m by simp
  qed
  ultimately show ?thesis by (simp add: map_butlast[symmetric])
qed

lemma map2_upt: "map2 f (map a [0..<n]) (map b [0..<n]) = map (\<lambda>i. f (a i) (b i)) [0..<n]"
  by (simp add: zip_map_map zip_same_conv_map)

lemma log_prob_square:
  assumes wf: "wf_mat K y" and K: "1 \<le> K"
    and c: "lkj_constant self (p_eta self) (p_d self) = Inr (c, self')"
  shows "log_prob self y =
           Inr (c + (\<Sum>k<K - 1. ln (y ! k ! k) * (real (K - 2 - k) + 2 * p_eta self - 2)), self')"
proof -
  have nc: "int (ncols y) - 1 = int (K - 1)" using wf_mat_dims[OF wf K] K by simp
  have ld: "map ln (butlast (diagonal y)) = map (\<lambda>i. ln (y ! i ! i)) [0..<K - 1]"
    by (simp add: diagonal_square[OF wf K] comp_def)
  have lin: "linspace (real_of_int (int (K - 1) - 1)) 0 (int (K - 1))
             = Inr (map (\<lambda>i. real (K - 1 - 1 - i)) [0..<K - 1])"
    by (rule linspace_down)
  have ex: "expand_vec (map (\<lambda>i. real (K - 1 - 1 - i)) [0..<K - 1]) (K - 1)
            = Inr (map (\<lambda>i. real (K - 1 - 1 - i)) [0..<K - 1])"
    by (simp add: expand_vec_def)
  have v: "map2 (+) (map2 (*) (map (\<lambda>i. ln (y ! i ! i)) [0..<K - 1])
                              (map (\<lambda>i. real (K - 1 - 1 - i)) [0..<K - 1]))
                    (map (\<lambda>v. v * (p_eta self * 2 + (-2))) (map (\<lambda>i. ln (y ! i ! i)) [0..<K - 1]))
           = map (\<lambda>k. ln (y ! k ! k) * (real (K - 2 - k) + 2 * p_eta self - 2)) [0..<K - 1]"
    unfolding map_map comp_def map2_upt by (intro map_cong) (simp_all add: algebra_simps)
  have len: "length (map (\<lambda>i. ln (y ! i ! i)) [0..<K - 1]) = K - 1" by simp
  show ?thesis
    unfolding log_prob_def Let_def c nc ld lin len
    apply (simp only: sum.case prod.case ex)
    apply (simp only: sum.case v sum_list_upt)
    apply (simp only: add.commute)
    done
qed

lemma init_2_2: "init 2 2 = Inr \<lparr>p_concentrations = [2], p_eta = 2, p_d = 2,
                    p_lkj_constant = None\<rparr>"
  by (simp add: init_def init_block_def init_fill_def Let_def numeral_2_eq_2)

text \<open>
  The index into \<^verbatim>\<open>concentrations\<close> counts the assignments made so far: after
  \<open>n\<close> blocks it is \<open>off d n\<close>, at most the size of the vector, so that no
  assignment of \<^verbatim>\<open>__init__\<close> is out of range.
\<close>

lemma init_fill_index:
  "snd (snd (foldl init_fill (a, c, i) js)) = i + length js"
  by (induction js arbitrary: a c i) (simp_all add: init_fill_def)

lemma init_block_index:
  "k < d \<Longrightarrow> snd (snd (init_block d (a, c, i) k)) = i + (d - 1 - k)"
  by (simp add: init_block_def init_fill_index)

lemma init_index_total:
  "n \<le> d - 1 \<Longrightarrow> snd (snd (foldl (init_block d) (a, c, 0) [0..<n])) = off d n"
proof (induction n)
  case 0
  then show ?case by (simp add: off_0)
next
  case (Suc n)
  obtain a' c' i' where s: "foldl (init_block d) (a, c, 0) [0..<n] = (a', c', i')"
    by (cases "foldl (init_block d) (a, c, 0) [0..<n]") auto
  with Suc have "i' = off d n" by simp
  moreover have "n < d" using Suc.prems by simp
  ultimately show ?case using s by (simp add: init_block_index off_Suc)
qed

section \<open>The concrete scenario of the specification\<close>

text \<open>
  For \<open>d = 2\<close> and \<open>x = [0.5]\<close> the forward map gives
  \<open>[[1, 0], [0.5, sqrt 0.75]]\<close>.
\<close>

lemma call_d2_example: "PartialCorr_call exact_arith [1/2] = Inr [[1, 0], [1/2, sqrt (3/4)]]"
proof -
  have "dim_of_len (length [1/2::real]) = real 2" using dim_of_len_tri[of 2] by simp
  then show ?thesis
    by (simp add: PartialCorr_call_exact Let_def zeros2_exact zeros_exact set_entry_def set_col_from_def
      slice_def call_step_exact col_from_def numeral_2_eq_2)
qed

section \<open>Single-precision arithmetic at the numbers used below\<close>












lemma dim_of_len_0: "dim_of_len 0 = 1" by (simp add: dim_of_len_def)

section \<open>The code in single precision at three inputs\<close>








section \<open>Properties that hold in every arithmetic\<close>

lemma unconstrained_d1:
  "Unconstrained_call ar [] = Inr [[a_const ar 1]] \<and>
   Unconstrained_inverse ar [[a_const ar 1]] = Inl RuntimeError"
  by (simp add: Unconstrained_call_def Unconstrained_inverse_def PartialCorr_call_def
      PartialCorr_inverse_def dim_of_len_0 Let_def zeros2_def set_entry_def set_col_from_def
      slice_def nrows_def ncols_def)






section \<open>The unconstrained round trip over the reals\<close>

lemma unconstrained_roundtrip_exact:
  assumes "length u = d * (d - 1) div 2" and "2 \<le> d"
  shows "\<exists>y. Unconstrained_call exact_arith u = Inr y
             \<and> Unconstrained_inverse exact_arith y = Inr u"
proof -
  have "length (map tanh u) = d * (d - 1) div 2" using assms(1) by simp
  from roundtrip[OF interior_tanh this assms(2)]
  obtain y where "PartialCorr_call exact_arith (map tanh u) = Inr y"
    "PartialCorr_inverse exact_arith y = Inr (map tanh u)" by blast
  then show ?thesis
    using atanh_tanh_list[of u]
    by (simp add: Unconstrained_call_def Unconstrained_inverse_def exact_fields del: map_map)
qed

section \<open>Results\<close>







text \<open>
  C3, as the code computes it: for \<open>d \<ge> 2\<close>, any \<open>eta\<close> and an instance whose cache
  is empty, \<^verbatim>\<open>lkj_constant(eta, d)\<close> is
  \<open>(d - 1) lgamma (eta + (d - 1) / 2)\<close> minus the sum over \<open>k\<close> from 1 to \<open>d - 1\<close> of
  \<open>k ln pi / 2 + lgamma (eta + (d - 1 - k) / 2)\<close>: the last term of the sum is the one
  for \<open>k = d - 1\<close>.
\<close>

theorem C3_lkj_constant_sum_to_d_minus_1:
  assumes "2 \<le> d" and "p_lkj_constant self = None"
  shows "map_sum id fst (lkj_constant self eta d) =
     Inr (real (d - 1) * lgamma (eta + real (d - 1) / 2)
            - (\<Sum>k = 1..d - 1. real k * ln pi / 2 + lgamma (eta + (real (d - 1) - real k) / 2)))"
proof -
  have "1 \<le> d" using assms(1) by simp
  from lkj_constant_fresh[OF this assms(2), of eta] show ?thesis by simp
qed

text \<open>
  The constant at \<open>d = 3\<close>, \<open>eta = 1\<close>, on the instance that \<^verbatim>\<open>__init__\<close> builds.
\<close>

theorem C3_lkj_constant_sum_to_d_minus_1_witness:
  "(2::nat) \<le> 3 \<and> p_lkj_constant \<lparr>p_concentrations = [3/2, 3/2, 1], p_eta = 1, p_d = 3,
                    p_lkj_constant = None\<rparr> = None
   \<and> map_sum id fst (lkj_constant \<lparr>p_concentrations = [3/2, 3/2, 1], p_eta = 1, p_d = 3,
                    p_lkj_constant = None\<rparr> 1 3) =
     Inr (real (3 - 1) * lgamma (1 + real (3 - 1) / 2)
            - (\<Sum>k = 1..3 - 1. real k * ln pi / 2 + lgamma (1 + (real (3 - 1) - real k) / 2)))"
  using C3_lkj_constant_sum_to_d_minus_1[of 3 "\<lparr>p_concentrations = [3/2, 3/2, 1], p_eta = 1, p_d = 3,
                    p_lkj_constant = None\<rparr>" 1] by simp

text \<open>
  C3 with the sum stopped at \<open>k = d - 2\<close> fails at \<open>d = 2\<close>, \<open>eta = 1\<close>: the sum
  is then empty, and the code subtracts \<open>ln pi / 2 + lgamma 1\<close>.
\<close>

theorem C3_upper_bound_counterexample:
  "map_sum id fst (lkj_constant \<lparr>p_concentrations = [1], p_eta = 1, p_d = 2,
                    p_lkj_constant = None\<rparr> 1 2) \<noteq>
     Inr (real (2 - 1) * lgamma (1 + real (2 - 1) / 2)
            - (\<Sum>k = 1..2 - 2. real k * ln pi / 2 + lgamma (1 + (real (2 - 1) - real k) / 2)))"
proof -
  have v: "map_sum id fst (lkj_constant \<lparr>p_concentrations = [1], p_eta = 1, p_d = 2,
                    p_lkj_constant = None\<rparr> 1 2) = Inr (lgamma (3 / 2) - ln pi / 2)"
    by (simp add: lkj_constant_def linspace_def lgamma_1 Let_def)
  have "1 < pi" using pi_ge_two by simp
  then have "0 < ln pi" by simp
  then show ?thesis unfolding v by simp
qed

text \<open>
  C4, as the code computes it: constructing the prior with \<open>d = 3\<close> and \<open>eta = 1\<close>
  gives the concentration vector \<open>[1.5, 1.5, 1.0]\<close>: two entries for the first block,
  one for the second.
\<close>

theorem C4_concentrations_d3_eta1:
  "map_sum id p_concentrations (init 3 1) = Inr [3/2, 3/2, 1]"
  by (simp add: init_def init_block_def init_fill_def Let_def numeral_3_eq_3 upt_rec)

text \<open>
  The vector is not \<open>[1.5, 1.0, 1.5]\<close>.
\<close>

theorem C4_concentrations_counterexample:
  "map_sum id p_concentrations (init 3 1) \<noteq> Inr [3/2, 1, 3/2]"
  by (simp add: init_def init_block_def init_fill_def Let_def numeral_3_eq_3 upt_rec)

text \<open>
  C5: the construction with \<open>eta = 0\<close> or \<open>eta = -1\<close> stops in the guard, before
  anything else is computed; what the guard raises there is \<^verbatim>\<open>NameError\<close>, not
  a validation error.
\<close>

theorem C5_nonpositive_eta_name_error:
  "init 3 0 = Inl NameError \<and> init 3 (-1) = Inl NameError"
  by (simp add: init_def)

text \<open>
  C6, the part on the inverse map: for every matrix whose number of rows differs from
  its number of columns, \<^verbatim>\<open>_inverse\<close> raises \<^verbatim>\<open>ValueError\<close>, in every arithmetic.
\<close>

theorem C6_inverse_rejects_non_square:
  assumes "nrows y \<noteq> ncols y"
  shows "PartialCorr_inverse ar y = Inl ValueError"
  using assms by (simp add: PartialCorr_inverse_def)

text \<open>
  A 2 by 3 matrix.
\<close>

theorem C6_inverse_rejects_non_square_witness:
  "nrows [[1, 2, 3], [4, 5, 6 :: real]] \<noteq> ncols [[1, 2, 3], [4, 5, 6 :: real]]
   \<and> PartialCorr_inverse exact_arith [[1, 2, 3], [4, 5, 6]] = Inl ValueError"
  using C6_inverse_rejects_non_square[of "[[1, 2, 3], [4, 5, 6]]" exact_arith]
  by (simp add: nrows_def ncols_def)

text \<open>
  C6 fails for \<^verbatim>\<open>log_prob\<close>: on a 3 by 2 matrix, the prior built with \<open>d = 2\<close>
  and \<open>eta = 2\<close> returns a number.
\<close>

theorem C6_log_prob_non_square_counterexample:
  "nrows [[2, 0], [0, 1], [0, 0]] \<noteq> ncols [[2, 0], [0, 1], [0, 0]]
   \<and> init 2 2 = Inr \<lparr>p_concentrations = [2], p_eta = 2, p_d = 2, p_lkj_constant = None\<rparr>
   \<and> map_sum id fst (log_prob \<lparr>p_concentrations = [2], p_eta = 2, p_d = 2,
                                p_lkj_constant = None\<rparr> [[2, 0], [0, 1], [0, 0]])
       = Inr (ln 2 * 2 + (lgamma (5/2) - (ln pi / 2 + lgamma 2)))"
proof -
  have "map_sum id fst (log_prob \<lparr>p_concentrations = [2], p_eta = 2, p_d = 2,
                                p_lkj_constant = None\<rparr> [[2, 0], [0, 1], [0, 0]])
       = Inr (ln 2 * 2 + (lgamma (5/2) - (ln pi / 2 + lgamma 2)))"
    by (simp add: nrows_def ncols_def log_prob_def lkj_constant_def linspace_def
        expand_vec_def diagonal_def Let_def numeral_2_eq_2)
  then show ?thesis by (simp add: init_2_2 nrows_def ncols_def)
qed




text \<open>
  C8: for every \<open>K\<close> by \<open>K\<close> matrix \<open>y\<close>, \<open>K \<ge> 1\<close>, and every instance with
  \<open>d \<ge> 1\<close>, \<^verbatim>\<open>lkj_constant\<close> returns a constant \<open>c\<close>, which is in the cache
  afterwards, and \<^verbatim>\<open>log_prob(y)\<close> returns \<open>c\<close> plus the sum over \<open>k\<close> from 0 to
  \<open>K - 2\<close> of the logarithm of the \<open>k\<close>-th diagonal entry times
  \<open>(K - 2 - k) + 2 eta - 2\<close>.
\<close>

theorem C8_log_prob_formula:
  assumes "wf_mat K y" and "1 \<le> K" and "1 \<le> p_d self"
  shows "\<exists>c self'. lkj_constant self (p_eta self) (p_d self) = Inr (c, self')
           \<and> p_lkj_constant self' = Some c
           \<and> log_prob self y =
               Inr (c + (\<Sum>k<K - 1. ln (y ! k ! k) * (real (K - 2 - k) + 2 * p_eta self - 2)),
                    self')"
proof -
  from lkj_constant_returns[OF assms(3)] obtain c self'
    where c: "lkj_constant self (p_eta self) (p_d self) = Inr (c, self')"
      and s: "p_lkj_constant self' = Some c" by blast
  from log_prob_square[OF assms(1,2) c] c s show ?thesis by blast
qed

text \<open>
  The density at a 3 by 3 factor with unit rows, for \<open>d = 3\<close> and \<open>eta = 2\<close>.
\<close>

theorem C8_log_prob_formula_witness:
  "wf_mat 3 [[1, 0, 0], [3/5, 4/5, 0], [0, 3/5, 4/5]] \<and> (1::nat) \<le> 3
   \<and> 1 \<le> p_d \<lparr>p_concentrations = [5/2, 5/2, 2], p_eta = 2, p_d = 3, p_lkj_constant = None\<rparr>
   \<and> (\<exists>c self'.
         lkj_constant \<lparr>p_concentrations = [5/2, 5/2, 2], p_eta = 2, p_d = 3,
                        p_lkj_constant = None\<rparr> 2 3 = Inr (c, self')
         \<and> p_lkj_constant self' = Some c
         \<and> log_prob \<lparr>p_concentrations = [5/2, 5/2, 2], p_eta = 2, p_d = 3,
                          p_lkj_constant = None\<rparr> [[1, 0, 0], [3/5, 4/5, 0], [0, 3/5, 4/5]] =
             Inr (c + (\<Sum>k<3 - 1. ln ([[1, 0, 0], [3/5, 4/5, 0], [0, 3/5, 4/5]] ! k ! k)
                                    * (real (3 - 2 - k) + 2 * 2 - 2)), self'))"
proof -
  have wf: "wf_mat 3 [[1, 0, 0], [3/5, 4/5, 0], [0, 3/5, 4/5]]"
    by (simp add: wf_mat_def numeral_3_eq_3 less_Suc_eq)
  show ?thesis
    using wf C8_log_prob_formula[OF wf, of "\<lparr>p_concentrations = [5/2, 5/2, 2], p_eta = 2, p_d = 3,
                        p_lkj_constant = None\<rparr>"]
    by simp
qed

text \<open>
  C9 at \<open>d = 1\<close>, in every arithmetic: the unconstrained transform maps the empty vector
  to the 1 by 1 identity, and its inverse fails on that matrix, where
  \<^verbatim>\<open>torch.zeros\<close> is asked for a tensor of size \<open>-1\<close>, instead of returning the empty
  vector.
\<close>

theorem C9_empty_vector_runtime_error:
  "Unconstrained_call ar [] = Inr [[a_const ar 1]] \<and>
   Unconstrained_inverse ar [[a_const ar 1]] = Inl RuntimeError"
  by (rule unconstrained_d1)

text \<open>
  C10: \<^verbatim>\<open>log_abs_det_jacobian\<close> of the partial-correlation transform does not read its
  first argument: in every arithmetic, any two first arguments, \<^verbatim>\<open>None\<close> included,
  give the same result for the same matrix, and the unconstrained transform's Jacobian
  term, which passes \<^verbatim>\<open>None\<close>, is the sum of the tanh term and that result for any
  first argument.
\<close>

theorem C10_jacobian_ignores_first_argument:
  "PartialCorr_log_abs_det_jacobian ar x1 y = PartialCorr_log_abs_det_jacobian ar x2 y
   \<and> PartialCorr_log_abs_det_jacobian ar None y = PartialCorr_log_abs_det_jacobian ar (Some x) y
   \<and> Unconstrained_log_abs_det_jacobian ar u y =
       (case PartialCorr_log_abs_det_jacobian ar (Some (map (a_tanh ar) u)) y of
          Inl e \<Rightarrow> Inl e
        | Inr l \<Rightarrow>
            Inr (a_add ar (a_mul ar (tsum ar (map (\<lambda>v. a_log ar (a_cosh ar v)) u))
                                   (a_const ar (-2))) l))"
  by (simp add: PartialCorr_log_abs_det_jacobian_def Unconstrained_log_abs_det_jacobian_def)

end
